theory Spec2Isabelle
  imports Main "HOL-Library.Sublist"
begin

section \<open>Values and errors\<close>

text \<open>
  Go's dynamically typed \<^verbatim>\<open>interface{}\<close> values, as the JSON decoder hands them to
  \<^verbatim>\<open>SetOptions\<close>: nil, a bool, a string, a number, a slice or a string-keyed map.  A map
  is an association list in the order in which \<^verbatim>\<open>range\<close> happens to visit it (Go leaves
  that order unspecified; every theorem below holds for each order).  The payload of a
  number is never inspected by the code modelled here.
\<close>

datatype val =
    VNil
  | VBool bool
  | VString string
  | VNumber int
  | VList "val list"
  | VMap "(string \<times> val) list"

text \<open>
  \<^verbatim>\<open>errors.Errorf(format, args...)\<close> is kept unformatted: the format string and its
  arguments.  A run-time panic (nil dereference, write to a nil map, index out of range)
  is the second constructor, so that no panic of the source is silently a value.
\<close>

datatype error =
    Errorf string "arg list"
  | Panic string
and arg =
    ArgString string
  | ArgValue val
  | ArgError error
  | ArgTag string string

section \<open>The session: data\<close>

type_synonym uri = string
type_synonym view_ptr = nat

text \<open>The file kinds are the keys of \<^verbatim>\<open>SupportedCodeActions\<close> in the default options.\<close>

datatype FileKind = Go | Mod | Sum

text \<open>Modelled from the spec: the type of file actions is declared outside the sources at
  hand; a modification is an open, change, close or save action on one file.\<close>

datatype FileAction = Open | Change | Close | Save

text \<open>Of a file modification the session reads \<^verbatim>\<open>c.URI\<close> and \<^verbatim>\<open>c.Action\<close>; the other
  fields live in the extension part of the record.\<close>

record FileModification =
  URI :: uri
  Action :: FileAction

text \<open>Of a \<^verbatim>\<open>fileBase\<close> the session reads \<^verbatim>\<open>f.kind\<close> and \<^verbatim>\<open>f.URI()\<close>.\<close>

record fileBase =
  file_uri :: uri
  kind :: FileKind

text \<open>
  The snapshot literal of \<^verbatim>\<open>createView\<close> holds seven maps, all empty, and the back
  pointer \<^verbatim>\<open>view\<close>.  The maps' key and value types are declared outside the sources at
  hand, so the maps together are one component of an arbitrary type \<open>'sc\<close>.
\<close>

record 'sc snapshot =
  view :: "view_ptr option"
  tables :: 'sc

text \<open>
  A view, with the fields \<^verbatim>\<open>createView\<close> fills in.  \<open>vid\<close> is the number drawn from the
  package-level counter \<^verbatim>\<open>viewIndex\<close>; the Go field \<^verbatim>\<open>id\<close> is its decimal rendering.
  \<open>internals\<close> stands for what the session never reads itself: the file tables, the
  ignored URIs, the builtin package and the cancellation contexts.
\<close>

record ('opt, 'mf, 'sc, 'vs) view =
  vid :: int
  options :: 'opt
  name :: string
  modfiles :: 'mf
  folder :: uri
  snapshot :: "'sc snapshot"
  internals :: 'vs

text \<open>
  The session struct.  \<open>views\<close> is a slice of pointers, \<^verbatim>\<open>nil\<close> being \<open>None\<close>;
  \<open>viewMap\<close> is a Go map, which may itself be \<^verbatim>\<open>nil\<close> (reading a nil map finds nothing,
  writing to it panics).  The mutexes are left out: every method is modelled as one
  atomic step.  Three components belong to the model rather than to the struct:
  \<open>heap\<close> holds the views that pointers refer to (a pointer is an index, allocation
  appends), \<open>viewIndex\<close> is the package-level counter, and \<open>logged\<close> collects the calls of
  \<^verbatim>\<open>log.Error\<close>.
\<close>

record ('c, 'opt, 'mf, 'sc, 'vs, 'ov) session =
  cache :: 'c
  options :: 'opt
  views :: "view_ptr option list"
  viewMap :: "(uri \<rightharpoonup> view_ptr) option"
  overlays :: "uri \<rightharpoonup> 'ov"
  heap :: "('opt, 'mf, 'sc, 'vs) view list"
  viewIndex :: int
  logged :: "(string \<times> error) list"

text \<open>
  What the session calls but the sources at hand do not contain is a parameter: the
  methods of views and snapshots, the overlay update and the cache.  A method of a view
  may read its view and returns the parts of that view it changes; the fields
  \<open>vid\<close>, \<open>name\<close> and \<open>folder\<close> are written by \<^verbatim>\<open>createView\<close> only.  The overlay update
  works on the overlay table, the cache on its own state.

  Modelled from the spec: \<^verbatim>\<open>invalidateContent\<close> derives a new snapshot from the view's
  current one, installs it as the view's current snapshot and returns it; so the
  parameter yields one snapshot, which the model both stores in the view and hands back.
  \<^verbatim>\<open>load\<close> and \<^verbatim>\<open>checkWorkspacePackages\<close> are methods of the view's snapshot and yield the
  snapshot as they leave it.
\<close>

record ('c, 'opt, 'mf, 'sc, 'vs, 'md, 'ov, 'fh, 'z) env =
  getModfiles :: "uri \<Rightarrow> 'opt \<Rightarrow> 'mf \<times> error option"
  emptyTables :: 'sc
  emptyInternals :: 'vs
  cacheOptions :: "'c \<Rightarrow> ('opt \<Rightarrow> 'opt) option"
  buildBuiltinPackage :: "('opt, 'mf, 'sc, 'vs) view \<Rightarrow> 'vs"
  load :: "('opt, 'mf, 'sc, 'vs) view \<Rightarrow> uri \<Rightarrow> (error + 'md) \<times> 'sc snapshot"
  checkWorkspacePackages :: "('opt, 'mf, 'sc, 'vs) view \<Rightarrow> 'md \<Rightarrow> error option \<times> 'sc snapshot"
  shutdown :: "('opt, 'mf, 'sc, 'vs) view \<Rightarrow> 'vs"
  Ignore :: "('opt, 'mf, 'sc, 'vs) view \<Rightarrow> uri \<Rightarrow> bool"
  getFileLocked :: "('opt, 'mf, 'sc, 'vs) view \<Rightarrow> uri \<Rightarrow> (error + fileBase) \<times> 'vs"
  invalidateContent ::
    "('opt, 'mf, 'sc, 'vs) view \<Rightarrow> uri \<Rightarrow> FileKind \<Rightarrow> FileAction \<Rightarrow> 'sc snapshot \<times> 'vs"
  updateOverlay ::
    "(uri \<rightharpoonup> 'ov) \<Rightarrow> 'z FileModification_scheme \<Rightarrow> (uri \<rightharpoonup> 'ov) \<times> error option"
  cacheGetFile :: "'c \<Rightarrow> uri \<Rightarrow> FileKind \<Rightarrow> 'fh \<times> 'c"

text \<open>Modelled from the spec: the accessors \<^verbatim>\<open>Folder()\<close> and \<^verbatim>\<open>Name()\<close> of a view are
  declared outside the sources at hand; they return the View's workspace root and name,
  the fields \<^verbatim>\<open>createView\<close> stores.  \<open>ViewName\<close> is \<^verbatim>\<open>Name()\<close>: the plain name is the field
  of an \<^verbatim>\<open>OptionResult\<close> below.\<close>

definition Folder :: "('opt, 'mf, 'sc, 'vs) view \<Rightarrow> uri" where
  "Folder v = folder v"

definition ViewName :: "('opt, 'mf, 'sc, 'vs) view \<Rightarrow> string" where
  "ViewName v = name v"

section \<open>Routing a URI to a view\<close>

text \<open>The loop of \<^verbatim>\<open>bestView\<close>, carrying the variable \<^verbatim>\<open>longest\<close>.\<close>

fun bestViewLoop ::
  "('opt, 'mf, 'sc, 'vs) view list \<Rightarrow> uri \<Rightarrow> view_ptr option list \<Rightarrow> view_ptr option
    \<Rightarrow> error + view_ptr option" where
  "bestViewLoop h u [] longest = Inr longest"
| "bestViewLoop h u (None # rest) longest = Inl (Panic ''nil pointer dereference'')"
| "bestViewLoop h u (Some vw # rest) longest =
     (if (case longest of None \<Rightarrow> False
          | Some l \<Rightarrow> length (Folder (h ! l)) > length (Folder (h ! vw)))
      then bestViewLoop h u rest longest
      else if prefix (Folder (h ! vw)) u then bestViewLoop h u rest (Some vw)
      else bestViewLoop h u rest longest)"

text \<open>When the loop found nothing, \<^verbatim>\<open>s.views[0]\<close> is returned.  A nil first entry cannot
  reach that line, the loop has panicked on it before.\<close>

definition bestView ::
  "('c, 'opt, 'mf, 'sc, 'vs, 'ov) session \<Rightarrow> uri \<Rightarrow> error + view_ptr" where
  "bestView s u =
     (if length (views s) = 0 then Inl (Errorf ''no views in the session'' [])
      else case bestViewLoop (heap s) u (views s) None of
             Inl err \<Rightarrow> Inl err
           | Inr (Some longest) \<Rightarrow> Inr longest
           | Inr None \<Rightarrow>
               (case views s ! 0 of
                  Some v \<Rightarrow> Inr v
                | None \<Rightarrow> Inl (Panic ''nil pointer dereference'')))"

definition lookupMemo ::
  "('c, 'opt, 'mf, 'sc, 'vs, 'ov) session \<Rightarrow> uri \<Rightarrow> view_ptr option" where
  "lookupMemo s u = (case viewMap s of None \<Rightarrow> None | Some m \<Rightarrow> m u)"

definition viewOf ::
  "('c, 'opt, 'mf, 'sc, 'vs, 'ov) session \<Rightarrow> uri
    \<Rightarrow> (error + view_ptr) \<times> ('c, 'opt, 'mf, 'sc, 'vs, 'ov) session" where
  "viewOf s u =
     (case lookupMemo s u of
        Some v \<Rightarrow> (Inr v, s)
      | None \<Rightarrow>
          (case bestView s u of
             Inl err \<Rightarrow> (Inl err, s)
           | Inr v \<Rightarrow>
               (case viewMap s of
                  None \<Rightarrow> (Inl (Panic ''assignment to entry in nil map''), s)
                | Some m \<Rightarrow> (Inr v, s\<lparr>viewMap := Some (m(u \<mapsto> v))\<rparr>))))"

definition ViewOf ::
  "('c, 'opt, 'mf, 'sc, 'vs, 'ov) session \<Rightarrow> uri
    \<Rightarrow> (error + view_ptr) \<times> ('c, 'opt, 'mf, 'sc, 'vs, 'ov) session" where
  "ViewOf s u = viewOf s u"

fun viewsOfLoop ::
  "('opt, 'mf, 'sc, 'vs) view list \<Rightarrow> uri \<Rightarrow> view_ptr option list \<Rightarrow> view_ptr list
    \<Rightarrow> error + view_ptr list" where
  "viewsOfLoop h u [] acc = Inr acc"
| "viewsOfLoop h u (None # rest) acc = Inl (Panic ''nil pointer dereference'')"
| "viewsOfLoop h u (Some vw # rest) acc =
     (if prefix (Folder (h ! vw)) u then viewsOfLoop h u rest (acc @ [vw])
      else viewsOfLoop h u rest acc)"

definition viewsOf ::
  "('c, 'opt, 'mf, 'sc, 'vs, 'ov) session \<Rightarrow> uri \<Rightarrow> error + view_ptr list" where
  "viewsOf s u = viewsOfLoop (heap s) u (views s) []"

definition Views :: "('c, 'opt, 'mf, 'sc, 'vs, 'ov) session \<Rightarrow> view_ptr option list" where
  "Views s = views s"

section \<open>Creating, replacing and removing views\<close>

text \<open>
  \<^verbatim>\<open>createView\<close>.  The new view is allocated at the end of the heap.  An error of
  \<^verbatim>\<open>getModfiles\<close>, of the first load and of the workspace-package check is logged; the
  function has three \<^verbatim>\<open>return\<close> statements and each returns a nil error.
\<close>

definition createView ::
  "('c, 'opt, 'mf, 'sc, 'vs, 'md, 'ov, 'fh, 'z) env \<Rightarrow> string \<Rightarrow> uri \<Rightarrow> 'opt
    \<Rightarrow> ('c, 'opt, 'mf, 'sc, 'vs, 'ov) session
    \<Rightarrow> (view_ptr \<times> 'sc snapshot \<times> error option) \<times> ('c, 'opt, 'mf, 'sc, 'vs, 'ov) session" where
  "createView env nm fldr opts s =
     (let index = viewIndex s + 1;
          (mfs, merr) = getModfiles env fldr opts;
          lg = (case merr of None \<Rightarrow> logged s
                | Some err \<Rightarrow> logged s @ [(''error getting modfiles'', err)]);
          p = length (heap s);
          v = \<lparr>vid = index, options = opts, name = nm, modfiles = mfs, folder = fldr,
               snapshot = \<lparr>view = None, tables = emptyTables env\<rparr>,
               internals = emptyInternals env\<rparr>;
          v = v\<lparr>snapshot := (snapshot v)\<lparr>view := Some p\<rparr>\<rparr>;
          v = (case cacheOptions env (cache s) of
                 None \<Rightarrow> v
               | Some f \<Rightarrow> v\<lparr>view.options := f (view.options v)\<rparr>);
          v = v\<lparr>internals := buildBuiltinPackage env v\<rparr>;
          (m, snap) = load env v fldr;
          v = v\<lparr>snapshot := snap\<rparr>
      in case m of
           Inl err \<Rightarrow>
             ((p, snapshot v, None),
              s\<lparr>heap := heap s @ [v], viewIndex := index,
                logged := lg @ [(''failed to load snapshot'', err)]\<rparr>)
         | Inr md \<Rightarrow>
             (let (cerr, snap') = checkWorkspacePackages env v md;
                  v = v\<lparr>snapshot := snap'\<rparr>
              in case cerr of
                   Some err \<Rightarrow>
                     ((p, snapshot v, None),
                      s\<lparr>heap := heap s @ [v], viewIndex := index,
                        logged := lg @ [(''failed to check snapshot'', err)]\<rparr>)
                 | None \<Rightarrow>
                     ((p, snapshot v, None),
                      s\<lparr>heap := heap s @ [v], viewIndex := index, logged := lg\<rparr>)))"

definition NewView ::
  "('c, 'opt, 'mf, 'sc, 'vs, 'md, 'ov, 'fh, 'z) env \<Rightarrow> string \<Rightarrow> uri \<Rightarrow> 'opt
    \<Rightarrow> ('c, 'opt, 'mf, 'sc, 'vs, 'ov) session
    \<Rightarrow> (error + view_ptr \<times> 'sc snapshot) \<times> ('c, 'opt, 'mf, 'sc, 'vs, 'ov) session" where
  "NewView env nm fldr opts s =
     (case createView env nm fldr opts s of
        ((v, snap, Some err), s') \<Rightarrow> (Inl err, s')
      | ((v, snap, None), s') \<Rightarrow>
          (Inr (v, snap), s'\<lparr>views := views s' @ [Some v], viewMap := Some Map.empty\<rparr>))"

text \<open>\<^verbatim>\<open>dropView\<close>: the map is reset first, whether or not the view is found.  The loop
  looks for the first index that holds the pointer \<open>v\<close>.\<close>

fun dropViewLoop :: "view_ptr \<Rightarrow> view_ptr option list \<Rightarrow> nat \<Rightarrow> nat option" where
  "dropViewLoop v [] i = None"
| "dropViewLoop v (x # rest) i = (if Some v = x then Some i else dropViewLoop v rest (Suc i))"

definition dropView ::
  "('c, 'opt, 'mf, 'sc, 'vs, 'md, 'ov, 'fh, 'z) env \<Rightarrow> view_ptr
    \<Rightarrow> ('c, 'opt, 'mf, 'sc, 'vs, 'ov) session
    \<Rightarrow> (error + nat) \<times> ('c, 'opt, 'mf, 'sc, 'vs, 'ov) session" where
  "dropView env v s =
     (let s1 = s\<lparr>viewMap := Some Map.empty\<rparr>
      in case dropViewLoop v (views s1) 0 of
           Some i \<Rightarrow>
             (Inr i,
              s1\<lparr>views := (views s1)[i := None],
                 heap := (heap s1)[v := (heap s1 ! v)\<lparr>internals := shutdown env (heap s1 ! v)\<rparr>]\<rparr>)
         | None \<Rightarrow>
             (Inl (Errorf ''view %s for %v not found''
                    [ArgString (ViewName (heap s1 ! v)), ArgString (Folder (heap s1 ! v))]),
              s1))"

text \<open>The three statements that delete slot \<open>i\<close>: the last entry moves into it, the last
  slot is cleared and the slice is shortened by one.\<close>

definition deleteSlot :: "view_ptr option list \<Rightarrow> nat \<Rightarrow> view_ptr option list" where
  "deleteSlot vs i =
     (let vs1 = vs[i := vs ! (length vs - 1)];
          vs2 = vs1[length vs1 - 1 := None]
      in take (length vs2 - 1) vs2)"

definition removeView ::
  "('c, 'opt, 'mf, 'sc, 'vs, 'md, 'ov, 'fh, 'z) env \<Rightarrow> view_ptr
    \<Rightarrow> ('c, 'opt, 'mf, 'sc, 'vs, 'ov) session
    \<Rightarrow> error option \<times> ('c, 'opt, 'mf, 'sc, 'vs, 'ov) session" where
  "removeView env v s =
     (case dropView env v s of
        (Inl err, s1) \<Rightarrow> (Some err, s1)
      | (Inr i, s1) \<Rightarrow> (None, s1\<lparr>views := deleteSlot (views s1) i\<rparr>))"

text \<open>\<^verbatim>\<open>updateView\<close>.  The branch for a failed \<^verbatim>\<open>createView\<close> is modelled as written; the
  assignment \<^verbatim>\<open>s.views[i] = v\<close> after it panics when \<open>i\<close> is no longer an index.\<close>

definition updateView ::
  "('c, 'opt, 'mf, 'sc, 'vs, 'md, 'ov, 'fh, 'z) env \<Rightarrow> view_ptr \<Rightarrow> 'opt
    \<Rightarrow> ('c, 'opt, 'mf, 'sc, 'vs, 'ov) session
    \<Rightarrow> (error + view_ptr \<times> 'sc snapshot) \<times> ('c, 'opt, 'mf, 'sc, 'vs, 'ov) session" where
  "updateView env vw opts s =
     (case dropView env vw s of
        (Inl err, s1) \<Rightarrow> (Inl err, s1)
      | (Inr i, s1) \<Rightarrow>
          (case createView env (name (heap s1 ! vw)) (folder (heap s1 ! vw)) opts s1 of
             ((v, snap, err), s2) \<Rightarrow>
               (let s3 = (case err of
                            None \<Rightarrow> s2
                          | Some e \<Rightarrow> s2\<lparr>views := deleteSlot (views s2) i\<rparr>)
                in if i < length (views s3)
                   then (Inr (v, snap), s3\<lparr>views := (views s3)[i := Some v]\<rparr>)
                   else (Inl (Panic ''index out of range''), s3))))"

fun shutdownLoop ::
  "('c, 'opt, 'mf, 'sc, 'vs, 'md, 'ov, 'fh, 'z) env \<Rightarrow> view_ptr option list
    \<Rightarrow> ('opt, 'mf, 'sc, 'vs) view list \<Rightarrow> error option \<times> ('opt, 'mf, 'sc, 'vs) view list" where
  "shutdownLoop env [] h = (None, h)"
| "shutdownLoop env (None # rest) h = (Some (Panic ''nil pointer dereference''), h)"
| "shutdownLoop env (Some v # rest) h =
     shutdownLoop env rest (h[v := (h ! v)\<lparr>internals := shutdown env (h ! v)\<rparr>])"

definition Shutdown ::
  "('c, 'opt, 'mf, 'sc, 'vs, 'md, 'ov, 'fh, 'z) env \<Rightarrow> ('c, 'opt, 'mf, 'sc, 'vs, 'ov) session
    \<Rightarrow> error option \<times> ('c, 'opt, 'mf, 'sc, 'vs, 'ov) session" where
  "Shutdown env s =
     (case shutdownLoop env (views s) (heap s) of
        (Some err, h) \<Rightarrow> (Some err, s\<lparr>heap := h\<rparr>)
      | (None, h) \<Rightarrow> (None, s\<lparr>heap := h, views := [], viewMap := None\<rparr>))"

definition SetOptions_session ::
  "'opt \<Rightarrow> ('c, 'opt, 'mf, 'sc, 'vs, 'ov) session \<Rightarrow> ('c, 'opt, 'mf, 'sc, 'vs, 'ov) session" where
  "SetOptions_session opts s = s\<lparr>options := opts\<rparr>"

section \<open>File modifications and file access\<close>

text \<open>
  The loop of \<^verbatim>\<open>DidModifyFile\<close> over the views that \<^verbatim>\<open>viewsOf\<close> returned.  It stops at
  the first ignored file or failed \<^verbatim>\<open>getFileLocked\<close>; what earlier iterations did to
  their views stays done.
\<close>

fun modifyLoop ::
  "('c, 'opt, 'mf, 'sc, 'vs, 'md, 'ov, 'fh, 'z) env \<Rightarrow> 'z FileModification_scheme
    \<Rightarrow> view_ptr list \<Rightarrow> ('c, 'opt, 'mf, 'sc, 'vs, 'ov) session \<Rightarrow> 'sc snapshot list
    \<Rightarrow> (error + 'sc snapshot list) \<times> ('c, 'opt, 'mf, 'sc, 'vs, 'ov) session" where
  "modifyLoop env c [] s snapshots = (Inr snapshots, s)"
| "modifyLoop env c (p # ps) s snapshots =
     (let vw = heap s ! p
      in if Ignore env vw (URI c) then (Inl (Errorf ''ignored file %v'' [ArgString (URI c)]), s)
         else case getFileLocked env vw (URI c) of
                (Inl err, vs1) \<Rightarrow> (Inl err, s\<lparr>heap := (heap s)[p := vw\<lparr>internals := vs1\<rparr>]\<rparr>)
              | (Inr f, vs1) \<Rightarrow>
                  (let vw1 = vw\<lparr>internals := vs1\<rparr>;
                       (snap, vs2) = invalidateContent env vw1 (URI c) (kind f) (Action c);
                       vw2 = vw1\<lparr>snapshot := snap, internals := vs2\<rparr>
                   in modifyLoop env c ps (s\<lparr>heap := (heap s)[p := vw2]\<rparr>)
                        (snapshots @ [snap])))"

definition DidModifyFile ::
  "('c, 'opt, 'mf, 'sc, 'vs, 'md, 'ov, 'fh, 'z) env \<Rightarrow> 'z FileModification_scheme
    \<Rightarrow> ('c, 'opt, 'mf, 'sc, 'vs, 'ov) session
    \<Rightarrow> (error + 'sc snapshot list) \<times> ('c, 'opt, 'mf, 'sc, 'vs, 'ov) session" where
  "DidModifyFile env c s =
     (case updateOverlay env (overlays s) c of
        (ovs, Some err) \<Rightarrow> (Inl err, s\<lparr>overlays := ovs\<rparr>)
      | (ovs, None) \<Rightarrow>
          (let s1 = s\<lparr>overlays := ovs\<rparr>
           in case viewsOf s1 (URI c) of
                Inl err \<Rightarrow> (Inl err, s1)
              | Inr vs \<Rightarrow> modifyLoop env c vs s1 []))"

text \<open>Modelled from the spec: \<^verbatim>\<open>readOverlay\<close> is declared outside the sources at hand.
  An overlay is the session's entry for a path in the overlay table; the lookup returns
  the entry, or nil when the table has none.\<close>

definition readOverlay :: "('c, 'opt, 'mf, 'sc, 'vs, 'ov) session \<Rightarrow> uri \<Rightarrow> 'ov option" where
  "readOverlay s u = overlays s u"

datatype ('ov, 'fh) FileHandle = OverlayHandle 'ov | CacheHandle 'fh

definition GetFile ::
  "('c, 'opt, 'mf, 'sc, 'vs, 'md, 'ov, 'fh, 'z) env \<Rightarrow> ('c, 'opt, 'mf, 'sc, 'vs, 'ov) session
    \<Rightarrow> uri \<Rightarrow> FileKind \<Rightarrow> ('ov, 'fh) FileHandle \<times> ('c, 'opt, 'mf, 'sc, 'vs, 'ov) session" where
  "GetFile env s u k =
     (case readOverlay s u of
        Some overlay \<Rightarrow> (OverlayHandle overlay, s)
      | None \<Rightarrow>
          (let (fh, c) = cacheGetFile env (cache s) u k
           in (CacheHandle fh, s\<lparr>cache := c\<rparr>)))"

definition IsOpen :: "('c, 'opt, 'mf, 'sc, 'vs, 'ov) session \<Rightarrow> uri \<Rightarrow> bool" where
  "IsOpen s u = (overlays s u \<noteq> None)"

definition DidChangeOutOfBand ::
  "('c, 'opt, 'mf, 'sc, 'vs, 'md, 'ov, 'fh, 'z) env \<Rightarrow> uri \<Rightarrow> FileAction
    \<Rightarrow> ('c, 'opt, 'mf, 'sc, 'vs, 'ov) session
    \<Rightarrow> (error + bool) \<times> ('c, 'opt, 'mf, 'sc, 'vs, 'ov) session" where
  "DidChangeOutOfBand env u action s =
     (case viewOf s u of
        (Inl (Panic msg), s1) \<Rightarrow> (Inl (Panic msg), s1)
      | (Inl (Errorf msg args), s1) \<Rightarrow> (Inr False, s1)
      | (Inr p, s1) \<Rightarrow>
          (let vw = heap s1 ! p
           in case getFileLocked env vw u of
                (Inl err, vs1) \<Rightarrow> (Inr False, s1\<lparr>heap := (heap s1)[p := vw\<lparr>internals := vs1\<rparr>]\<rparr>)
              | (Inr f, vs1) \<Rightarrow>
                  (let vw1 = vw\<lparr>internals := vs1\<rparr>;
                       (snap, vs2) = invalidateContent env vw1 (file_uri f) (kind f) action;
                       vw2 = vw1\<lparr>snapshot := snap, internals := vs2\<rparr>
                   in (Inr True, s1\<lparr>heap := (heap s1)[p := vw2]\<rparr>))))"

section \<open>Runs of a session\<close>

text \<open>Modelled from the spec: the constructor of a session is declared outside the
  sources at hand.  A new session is a container with no Views and an empty overlay
  table; \<open>views\<close> and \<open>viewMap\<close> have Go's zero value.\<close>

definition NewSession :: "'c \<Rightarrow> 'opt \<Rightarrow> ('c, 'opt, 'mf, 'sc, 'vs, 'ov) session" where
  "NewSession c opts =
     \<lparr>cache = c, options = opts, views = [], viewMap = None, overlays = Map.empty,
      heap = [], viewIndex = 0, logged = []\<rparr>"

text \<open>The calls a client can make.  \<^verbatim>\<open>removeView\<close> and \<^verbatim>\<open>updateView\<close> are handed a
  pointer to a view that exists: they are reached from that view's own methods.\<close>

datatype ('opt, 'z) call =
    CallNewView string uri 'opt
  | CallRemoveView view_ptr
  | CallUpdateView view_ptr 'opt
  | CallViewOf uri
  | CallDidModifyFile "'z FileModification_scheme"
  | CallGetFile uri FileKind
  | CallDidChangeOutOfBand uri FileAction
  | CallSetOptions 'opt
  | CallShutdown

fun exec ::
  "('c, 'opt, 'mf, 'sc, 'vs, 'md, 'ov, 'fh, 'z) env \<Rightarrow> ('c, 'opt, 'mf, 'sc, 'vs, 'ov) session
    \<Rightarrow> ('opt, 'z) call \<Rightarrow> ('c, 'opt, 'mf, 'sc, 'vs, 'ov) session" where
  "exec env s (CallNewView nm fldr opts) = snd (NewView env nm fldr opts s)"
| "exec env s (CallRemoveView v) = (if v < length (heap s) then snd (removeView env v s) else s)"
| "exec env s (CallUpdateView v opts) =
     (if v < length (heap s) then snd (updateView env v opts s) else s)"
| "exec env s (CallViewOf u) = snd (ViewOf s u)"
| "exec env s (CallDidModifyFile c) = snd (DidModifyFile env c s)"
| "exec env s (CallGetFile u k) = snd (GetFile env s u k)"
| "exec env s (CallDidChangeOutOfBand u action) = snd (DidChangeOutOfBand env u action s)"
| "exec env s (CallSetOptions opts) = SetOptions_session opts s"
| "exec env s CallShutdown = snd (Shutdown env s)"

definition run ::
  "('c, 'opt, 'mf, 'sc, 'vs, 'md, 'ov, 'fh, 'z) env \<Rightarrow> ('opt, 'z) call list
    \<Rightarrow> ('c, 'opt, 'mf, 'sc, 'vs, 'ov) session \<Rightarrow> ('c, 'opt, 'mf, 'sc, 'vs, 'ov) session" where
  "run env calls s = foldl (exec env) s calls"

section \<open>Options\<close>
























section \<open>Well-formed sessions\<close>

text \<open>Between two calls no slot of \<open>views\<close> is nil, every pointer in it refers to an
  allocated view, no pointer occurs twice, and the map is allocated once there are views.\<close>

definition wf :: "('c, 'opt, 'mf, 'sc, 'vs, 'ov) session \<Rightarrow> bool" where
  "wf s =
     (list_all (\<lambda>x. case x of None \<Rightarrow> False | Some p \<Rightarrow> p < length (heap s)) (views s)
      \<and> distinct (views s)
      \<and> (views s = [] \<or> viewMap s \<noteq> None))"

text \<open>The memo agrees with the views: whatever it holds for a URI is what \<^verbatim>\<open>bestView\<close>
  computes for that URI now.\<close>

definition memoConsistent :: "('c, 'opt, 'mf, 'sc, 'vs, 'ov) session \<Rightarrow> bool" where
  "memoConsistent s = (\<forall>u v. lookupMemo s u = Some v \<longrightarrow> bestView s u = Inr v)"




section \<open>A concrete instance\<close>

text \<open>
  An instance of the parameters, small enough to evaluate: the cache counts its reads,
  a snapshot's tables are a generation number, the overlay update refuses to change or
  close a file that is not open.  \<open>envFail\<close> is the same with a first load that fails.
\<close>

type_synonym env0_t = "(nat, unit, unit, nat, nat, unit, string, string, unit) env"
type_synonym session0 = "(nat, unit, unit, nat, nat, string) session"

definition env0 :: env0_t where
  "env0 =
     \<lparr>getModfiles = (\<lambda>f opts. ((), None)),
      emptyTables = 0,
      emptyInternals = 0,
      cacheOptions = (\<lambda>c. None),
      buildBuiltinPackage = internals,
      load = (\<lambda>v f. (Inr (), snapshot v)),
      checkWorkspacePackages = (\<lambda>v md. (None, snapshot v)),
      shutdown = internals,
      Ignore = (\<lambda>v u. False),
      getFileLocked = (\<lambda>v u. (Inr \<lparr>file_uri = u, kind = Go\<rparr>, internals v)),
      invalidateContent =
        (\<lambda>v u k a. ((snapshot v)\<lparr>tables := Suc (tables (snapshot v))\<rparr>, internals v)),
      updateOverlay =
        (\<lambda>ovs c.
           if Action c = Open then (ovs(URI c \<mapsto> ''text''), None)
           else if ovs (URI c) = None
           then (ovs, Some (Errorf ''modifying unopened overlay %v'' [ArgString (URI c)]))
           else if Action c = Close then (ovs(URI c := None), None)
           else (ovs, None)),
      cacheGetFile = (\<lambda>c u k. (u, Suc c))\<rparr>"

definition envFail :: env0_t where
  "envFail = env0\<lparr>load := (\<lambda>v f. (Inl (Errorf ''go list failed'' []), snapshot v))\<rparr>"

definition s_new :: session0 where
  "s_new = NewSession 0 ()"

definition s_a :: session0 where
  "s_a = run env0 [CallNewView ''a'' ''/a'' ()] s_new"

definition s_ab :: session0 where
  "s_ab = run env0 [CallNewView ''a'' ''/a'' (), CallNewView ''b'' ''/a/b'' ()] s_new"



definition s_open :: session0 where
  "s_open = run env0 [CallDidModifyFile \<lparr>URI = ''/a/x.go'', Action = Open\<rparr>] s_new"


definition s_routed :: session0 where
  "s_routed =
     run env0 [CallNewView ''a'' ''/a'' (), CallNewView ''b'' ''/a/b'' (),
               CallViewOf ''/a/b/x.go'', CallRemoveView 1, CallViewOf ''/a/b/x.go'']
       (NewSession 0 ())"




section \<open>Evaluating the concrete sessions\<close>

lemma s_new_eval:
  "s_new = \<lparr>cache = 0, options = (), views = [], viewMap = None, overlays = Map.empty,
            heap = [], viewIndex = 0, logged = []\<rparr>"
  by (simp add: s_new_def NewSession_def)

lemma s_a_eval:
  "s_a = \<lparr>cache = 0, options = (), views = [Some 0], viewMap = Some Map.empty,
          overlays = Map.empty,
          heap = [\<lparr>vid = 1, options = (), name = ''a'', modfiles = (), folder = ''/a'',
                   snapshot = \<lparr>view = Some 0, tables = 0\<rparr>, internals = 0\<rparr>],
          viewIndex = 1, logged = []\<rparr>"
  by (simp add: s_a_def s_new_eval run_def NewView_def createView_def env0_def Let_def)

lemma s_open_eval:
  "s_open = s_new\<lparr>overlays := [''/a/x.go'' \<mapsto> ''text'']\<rparr>"
  by (simp add: s_open_def s_new_eval run_def DidModifyFile_def viewsOf_def env0_def Let_def)

section \<open>File access\<close>

text \<open>
  Claim C7.  For every URI and file kind, \<^verbatim>\<open>GetFile\<close> returns the session's overlay
  entry whenever the overlay table has one for the URI, and then the session, its cache
  included, is left as it was: the cache is not called, so nothing is read from disk.
  Only when there is no overlay does the result come from the cache, which may change.
\<close>

theorem GetFile_overlay_first:
  "(overlays s u = Some ov \<longrightarrow> GetFile env s u k = (OverlayHandle ov, s))
   \<and> (overlays s u = None \<longrightarrow>
        GetFile env s u k =
          (CacheHandle (fst (cacheGetFile env (cache s) u k)),
           s\<lparr>cache := snd (cacheGetFile env (cache s) u k)\<rparr>))"
  by (simp add: GetFile_def readOverlay_def split: prod.splits)

theorem GetFile_overlay_first_witness:
  "overlays s_open ''/a/x.go'' = Some ''text''
   \<and> GetFile env0 s_open ''/a/x.go'' Go = (OverlayHandle ''text'', s_open)
   \<and> cache (snd (GetFile env0 s_open ''/a/x.go'' Go)) = 0
   \<and> overlays s_open ''/a/y.go'' = None
   \<and> fst (GetFile env0 s_open ''/a/y.go'' Go) = CacheHandle ''/a/y.go''
   \<and> cache (snd (GetFile env0 s_open ''/a/y.go'' Go)) = 1"
proof -
  have hit: "overlays s_open ''/a/x.go'' = Some ''text''"
    by (simp add: s_open_eval)
  have miss: "overlays s_open ''/a/y.go'' = None"
    by (simp add: s_open_eval)
  have c: "cache s_open = 0"
    by (simp add: s_open_eval s_new_eval)
  from GetFile_overlay_first[of s_open "''/a/x.go''" "''text''" env0 Go] hit
  have g1: "GetFile env0 s_open ''/a/x.go'' Go = (OverlayHandle ''text'', s_open)"
    by simp
  from GetFile_overlay_first[of s_open "''/a/y.go''" "''text''" env0 Go] miss
  have g2: "GetFile env0 s_open ''/a/y.go'' Go =
      (CacheHandle (fst (cacheGetFile env0 (cache s_open) ''/a/y.go'' Go)),
       s_open\<lparr>cache := snd (cacheGetFile env0 (cache s_open) ''/a/y.go'' Go)\<rparr>)"
    by simp
  from g2 c have g3: "fst (GetFile env0 s_open ''/a/y.go'' Go) = CacheHandle ''/a/y.go''"
    and g4: "cache (snd (GetFile env0 s_open ''/a/y.go'' Go)) = 1"
    by (simp_all add: env0_def)
  from g1 c have g5: "cache (snd (GetFile env0 s_open ''/a/x.go'' Go)) = 0"
    by simp
  from hit miss g1 g3 g4 g5 show ?thesis by simp
qed

section \<open>File modifications\<close>

text \<open>
  Claim C10.  \<^verbatim>\<open>DidModifyFile\<close> updates the overlay table before it looks at any view.
  When that update fails, its error is the result, no list of snapshots is returned, and
  the session differs from the one before the call in the overlay table at most: the
  list of views and every view, its current snapshot included, are the same.
\<close>

theorem DidModifyFile_overlay_failure:
  assumes "updateOverlay env (overlays s) c = (ovs, Some err)"
  shows "DidModifyFile env c s = (Inl err, s\<lparr>overlays := ovs\<rparr>)
    \<and> heap (snd (DidModifyFile env c s)) = heap s
    \<and> views (snd (DidModifyFile env c s)) = views s
    \<and> map snapshot (heap (snd (DidModifyFile env c s))) = map snapshot (heap s)"
  using assms by (simp add: DidModifyFile_def)

theorem DidModifyFile_overlay_failure_witness:
  "updateOverlay env0 (overlays s_a) \<lparr>URI = ''/a/x.go'', Action = Change\<rparr>
     = (Map.empty, Some (Errorf ''modifying unopened overlay %v'' [ArgString ''/a/x.go'']))
   \<and> fst (DidModifyFile env0 \<lparr>URI = ''/a/x.go'', Action = Change\<rparr> s_a)
     = Inl (Errorf ''modifying unopened overlay %v'' [ArgString ''/a/x.go''])
   \<and> map snapshot (heap (snd (DidModifyFile env0 \<lparr>URI = ''/a/x.go'', Action = Change\<rparr> s_a)))
     = [\<lparr>view = Some 0, tables = 0\<rparr>]"
proof -
  have u: "updateOverlay env0 (overlays s_a) \<lparr>URI = ''/a/x.go'', Action = Change\<rparr>
     = (Map.empty, Some (Errorf ''modifying unopened overlay %v'' [ArgString ''/a/x.go'']))"
    by (simp add: env0_def s_a_eval)
  have h: "map snapshot (heap s_a) = [\<lparr>view = Some 0, tables = 0\<rparr>]"
    by (simp add: s_a_eval)
  from DidModifyFile_overlay_failure[OF u] u h show ?thesis by simp
qed

section \<open>Routing: the loop of bestView\<close>

lemma wf_noNil: "wf s \<Longrightarrow> None \<notin> set (views s)"
  by (auto simp: wf_def list_all_iff)

lemma wf_valid: "wf s \<Longrightarrow> Some p \<in> set (views s) \<Longrightarrow> p < length (heap s)"
  by (auto simp: wf_def list_all_iff)

lemma wf_map: "wf s \<Longrightarrow> views s \<noteq> [] \<Longrightarrow> \<exists>m. viewMap s = Some m"
  by (auto simp: wf_def)

lemma bestViewLoop_returns:
  "None \<notin> set vs \<Longrightarrow> \<exists>r. bestViewLoop h u vs L = Inr r"
proof (induction vs arbitrary: L)
  case Nil
  then show ?case by simp
next
  case (Cons x vs)
  then obtain p where "x = Some p" by (cases x) auto
  with Cons show ?case by simp
qed

lemma bestViewLoop_pick:
  "bestViewLoop h u vs L = Inr r \<Longrightarrow>
   r = L \<or> (\<exists>v. r = Some v \<and> Some v \<in> set vs \<and> prefix (Folder (h ! v)) u)"
proof (induction vs arbitrary: L)
  case Nil
  then show ?case by simp
next
  case (Cons x vs)
  show ?case
  proof (cases x)
    case None
    with Cons.prems show ?thesis by simp
  next
    case (Some p)
    with Cons.prems Cons.IH[of L] Cons.IH[of "Some p"] show ?thesis
      by (auto split: if_splits)
  qed
qed

lemma bestViewLoop_keeps:
  "bestViewLoop h u vs (Some l) = Inr r \<Longrightarrow>
   \<exists>v. r = Some v \<and> length (Folder (h ! l)) \<le> length (Folder (h ! v))"
proof (induction vs arbitrary: l)
  case Nil
  then show ?case by auto
next
  case (Cons x vs)
  show ?case
  proof (cases x)
    case None
    with Cons.prems show ?thesis by simp
  next
    case (Some p)
    with Cons.prems Cons.IH[of l] Cons.IH[of p] show ?thesis
      by (fastforce split: if_splits)
  qed
qed

lemma bestViewLoop_longest:
  "bestViewLoop h u vs L = Inr r \<Longrightarrow> Some w \<in> set vs \<Longrightarrow> prefix (Folder (h ! w)) u \<Longrightarrow>
   \<exists>v. r = Some v \<and> length (Folder (h ! w)) \<le> length (Folder (h ! v))"
proof (induction vs arbitrary: L)
  case Nil
  then show ?case by simp
next
  case (Cons x vs)
  show ?case
  proof (cases x)
    case None
    with Cons.prems show ?thesis by simp
  next
    case (Some p)
    show ?thesis
    proof (cases "w = p")
      case True
      show ?thesis
      proof (cases "case L of None \<Rightarrow> False
          | Some l \<Rightarrow> length (Folder (h ! l)) > length (Folder (h ! p))")
        case skip: True
        then obtain l where l: "L = Some l" "length (Folder (h ! p)) < length (Folder (h ! l))"
          by (cases L) auto
        with Cons.prems Some have "bestViewLoop h u vs (Some l) = Inr r" by simp
        from bestViewLoop_keeps[OF this] l True show ?thesis by fastforce
      next
        case False
        with Cons.prems Some True have "bestViewLoop h u vs (Some p) = Inr r" by simp
        from bestViewLoop_keeps[OF this] True show ?thesis by simp
      qed
    next
      case False
      with Cons.prems Some have "Some w \<in> set vs" by simp
      with Cons.prems Some Cons.IH[of L] Cons.IH[of "Some p"] show ?thesis
        by (auto split: if_splits)
    qed
  qed
qed


lemma bestViewLoop_none:
  "None \<notin> set vs \<Longrightarrow> \<forall>w. Some w \<in> set vs \<longrightarrow> \<not> prefix (Folder (h ! w)) u \<Longrightarrow>
   bestViewLoop h u vs L = Inr L"
proof (induction vs arbitrary: L)
  case Nil
  then show ?case by simp
next
  case (Cons x vs)
  then obtain p where "x = Some p" by (cases x) auto
  with Cons show ?case by simp
qed


section \<open>Routing: the claims\<close>

lemma s_ab_eval:
  "s_ab = \<lparr>cache = 0, options = (), views = [Some 0, Some 1], viewMap = Some Map.empty,
          overlays = Map.empty,
          heap = [\<lparr>vid = 1, options = (), name = ''a'', modfiles = (), folder = ''/a'',
                   snapshot = \<lparr>view = Some 0, tables = 0\<rparr>, internals = 0\<rparr>,
                  \<lparr>vid = 2, options = (), name = ''b'', modfiles = (), folder = ''/a/b'',
                   snapshot = \<lparr>view = Some 1, tables = 0\<rparr>, internals = 0\<rparr>],
          viewIndex = 2, logged = []\<rparr>"
  by (simp add: s_ab_def s_new_eval run_def NewView_def createView_def env0_def Let_def)


lemma bestView_matching:
  assumes w: "wf s" and m: "Some w \<in> set (views s)" "prefix (Folder (heap s ! w)) u"
  shows "\<exists>v. bestView s u = Inr v \<and> bestViewLoop (heap s) u (views s) None = Inr (Some v)
     \<and> Some v \<in> set (views s) \<and> prefix (Folder (heap s ! v)) u
     \<and> (\<forall>w'. Some w' \<in> set (views s) \<and> prefix (Folder (heap s ! w')) u
          \<longrightarrow> length (Folder (heap s ! w')) \<le> length (Folder (heap s ! v)))"
proof -
  from bestViewLoop_returns[OF wf_noNil[OF w]] obtain r where
    r: "bestViewLoop (heap s) u (views s) None = Inr r" by blast
  from bestViewLoop_longest[OF r m] obtain v where v: "r = Some v" by blast
  from bestViewLoop_pick[OF r] v have pick: "Some v \<in> set (views s)" "prefix (Folder (heap s ! v)) u"
    by auto
  have ne: "length (views s) \<noteq> 0" using m by auto
  have b: "bestView s u = Inr v" using ne by (simp add: bestView_def r v)
  have "\<forall>w'. Some w' \<in> set (views s) \<and> prefix (Folder (heap s ! w')) u
          \<longrightarrow> length (Folder (heap s ! w')) \<le> length (Folder (heap s ! v))"
  proof (intro allI impI)
    fix w' assume "Some w' \<in> set (views s) \<and> prefix (Folder (heap s ! w')) u"
    with bestViewLoop_longest[OF r, of w'] v
    show "length (Folder (heap s ! w')) \<le> length (Folder (heap s ! v))" by auto
  qed
  with b r v pick show ?thesis by blast
qed

text \<open>
  Claim C3.  In a well-formed session, for a URI that the memo does not hold yet and that
  lies under the root of at least one view, \<^verbatim>\<open>viewOf\<close> (and \<^verbatim>\<open>ViewOf\<close>, which is the same
  function) returns a view of the session whose root is a prefix of the URI and at least
  as long as the root of every view whose root is a prefix of the URI; the result is
  memoized.  The witness is the session with views rooted at \<open>/a\<close> and \<open>/a/b\<close>.
\<close>

theorem viewOf_longest_prefix:
  assumes "wf s" and "lookupMemo s u = None"
    and "Some w \<in> set (views s)" and "prefix (Folder (heap s ! w)) u"
  shows "ViewOf s u = viewOf s u
    \<and> (\<exists>v. fst (viewOf s u) = Inr v \<and> Some v \<in> set (views s)
          \<and> prefix (Folder (heap s ! v)) u
          \<and> (\<forall>w'. Some w' \<in> set (views s) \<and> prefix (Folder (heap s ! w')) u
                \<longrightarrow> length (Folder (heap s ! w')) \<le> length (Folder (heap s ! v)))
          \<and> lookupMemo (snd (viewOf s u)) u = Some v)"
proof -
  from bestView_matching[OF assms(1,3,4)] obtain v where
    b: "bestView s u = Inr v" and
    rest: "Some v \<in> set (views s)" "prefix (Folder (heap s ! v)) u"
      "\<forall>w'. Some w' \<in> set (views s) \<and> prefix (Folder (heap s ! w')) u
          \<longrightarrow> length (Folder (heap s ! w')) \<le> length (Folder (heap s ! v))" by blast
  have "views s \<noteq> []" using assms(3) by auto
  from wf_map[OF assms(1) this] obtain m where m: "viewMap s = Some m" by blast
  have vo: "viewOf s u = (Inr v, s\<lparr>viewMap := Some (m(u \<mapsto> v))\<rparr>)"
    by (simp add: viewOf_def assms(2) b m)
  have "lookupMemo (snd (viewOf s u)) u = Some v"
    by (simp add: vo lookupMemo_def)
  with vo rest show ?thesis by (auto simp: ViewOf_def)
qed

theorem viewOf_longest_prefix_witness:
  "wf s_ab
   \<and> Folder (heap s_ab ! 0) = ''/a'' \<and> Folder (heap s_ab ! 1) = ''/a/b''
   \<and> fst (viewOf s_ab ''/a/b/x.go'') = Inr 1
   \<and> fst (viewOf s_ab ''/a/y.go'') = Inr 0"
proof -
  have w: "wf s_ab" by (simp add: wf_def s_ab_eval)
  have f: "Folder (heap s_ab ! 0) = ''/a''" "Folder (heap s_ab ! 1) = ''/a/b''"
    by (simp_all add: s_ab_eval Folder_def)
  have memo: "lookupMemo s_ab ''/a/b/x.go'' = None" "lookupMemo s_ab ''/a/y.go'' = None"
    by (simp_all add: s_ab_eval lookupMemo_def)
  have in0: "Some 0 \<in> set (views s_ab)" and in1: "Some 1 \<in> set (views s_ab)"
    by (simp_all add: s_ab_eval)
  have vs: "\<And>v. Some v \<in> set (views s_ab) \<Longrightarrow> v = 0 \<or> v = 1"
    by (auto simp: s_ab_eval)
  have p1: "prefix (Folder (heap s_ab ! 1)) ''/a/b/x.go''"
    by (simp add: s_ab_eval Folder_def)
  have p0: "prefix (Folder (heap s_ab ! 0)) ''/a/y.go''"
    by (simp add: s_ab_eval Folder_def)
  have np: "\<not> prefix (Folder (heap s_ab ! 1)) ''/a/y.go''"
    by (simp add: s_ab_eval Folder_def)
  from viewOf_longest_prefix[OF w memo(1) in1 p1] obtain v where
    v: "fst (viewOf s_ab ''/a/b/x.go'') = Inr v" "Some v \<in> set (views s_ab)"
       "length (Folder (heap s_ab ! 1)) \<le> length (Folder (heap s_ab ! v))"
    using in1 p1 by blast
  from vs[OF v(2)] v(3) f have "v = 1" by auto
  with v have r1: "fst (viewOf s_ab ''/a/b/x.go'') = Inr 1" by simp
  from viewOf_longest_prefix[OF w memo(2) in0 p0] obtain v' where
    v': "fst (viewOf s_ab ''/a/y.go'') = Inr v'" "Some v' \<in> set (views s_ab)"
       "prefix (Folder (heap s_ab ! v')) ''/a/y.go''"
    by blast
  from vs[OF v'(2)] v'(3) np have "v' = 0" by auto
  with v' have r0: "fst (viewOf s_ab ''/a/y.go'') = Inr 0" by simp
  from w f r1 r0 show ?thesis by simp
qed

text \<open>
  Claim C4 says that \<^verbatim>\<open>ViewOf\<close> reports an error for a URI under no view's root.  The
  session with the single view rooted at \<open>/a\<close> answers the URI \<open>/b/x.go\<close> with that view.
\<close>

theorem ViewOf_no_match_counterexample:
  "views s_a = [Some 0]
   \<and> \<not> prefix (Folder (heap s_a ! 0)) ''/b/x.go''
   \<and> fst (ViewOf s_a ''/b/x.go'') = Inr 0"
  by (simp add: s_a_eval ViewOf_def viewOf_def lookupMemo_def bestView_def Folder_def)

text \<open>
  Claim C4, amended.  For a URI under no view's root, \<^verbatim>\<open>ViewOf\<close> returns the error
  "no views in the session" exactly when the session has no views; when it has views,
  the answer is the first view of the session's list, with no error.
\<close>

theorem ViewOf_without_match:
  assumes "wf s" and "memoConsistent s"
    and "\<forall>w. Some w \<in> set (views s) \<longrightarrow> \<not> prefix (Folder (heap s ! w)) u"
  shows "(views s = [] \<longrightarrow> ViewOf s u = (Inl (Errorf ''no views in the session'' []), s))
    \<and> (views s \<noteq> [] \<longrightarrow> (\<exists>v. views s ! 0 = Some v \<and> fst (ViewOf s u) = Inr v))"
proof (intro conjI impI)
  assume e: "views s = []"
  then have b: "bestView s u = Inl (Errorf ''no views in the session'' [])"
    by (simp add: bestView_def)
  with assms(2) have "lookupMemo s u = None"
    by (cases "lookupMemo s u") (auto simp: memoConsistent_def)
  with b show "ViewOf s u = (Inl (Errorf ''no views in the session'' []), s)"
    by (simp add: ViewOf_def viewOf_def)
next
  assume ne: "views s \<noteq> []"
  from bestViewLoop_none[OF wf_noNil[OF assms(1)] assms(3)]
  have l: "bestViewLoop (heap s) u (views s) None = Inr None" .
  from ne obtain a rest where ar: "views s = a # rest"
    by (cases "views s") auto
  with wf_noNil[OF assms(1)] obtain v where "a = Some v" by (cases a) auto
  with ar have v: "views s ! 0 = Some v" by simp
  with ne l have b: "bestView s u = Inr v" by (simp add: bestView_def)
  from wf_map[OF assms(1) ne] obtain m where m: "viewMap s = Some m" by blast
  have "fst (ViewOf s u) = Inr v"
  proof (cases "lookupMemo s u")
    case None
    then show ?thesis by (simp add: ViewOf_def viewOf_def b m)
  next
    case (Some v')
    with assms(2) b have "v' = v" by (auto simp: memoConsistent_def)
    with Some show ?thesis by (simp add: ViewOf_def viewOf_def)
  qed
  with v show "\<exists>v. views s ! 0 = Some v \<and> fst (ViewOf s u) = Inr v" by blast
qed

theorem ViewOf_without_match_witness:
  "wf s_a \<and> memoConsistent s_a \<and> wf s_new \<and> memoConsistent s_new
   \<and> views s_a ! 0 = Some 0 \<and> fst (ViewOf s_a ''/b/x.go'') = Inr 0
   \<and> ViewOf s_new ''/b/x.go'' = (Inl (Errorf ''no views in the session'' []), s_new)"
proof -
  have w: "wf s_a" "wf s_new" by (simp_all add: wf_def s_a_eval s_new_eval)
  have c: "memoConsistent s_a" "memoConsistent s_new"
    by (simp_all add: memoConsistent_def lookupMemo_def s_a_eval s_new_eval)
  have n: "\<forall>w. Some w \<in> set (views s_a) \<longrightarrow> \<not> prefix (Folder (heap s_a ! w)) ''/b/x.go''"
    by (simp add: s_a_eval Folder_def)
  have n': "\<forall>w. Some w \<in> set (views s_new) \<longrightarrow> \<not> prefix (Folder (heap s_new ! w)) ''/b/x.go''"
    by (simp add: s_new_eval)
  have v0: "views s_a ! 0 = Some 0" "views s_a \<noteq> []" "views s_new = []"
    by (simp_all add: s_a_eval s_new_eval)
  from ViewOf_without_match[OF w(1) c(1) n] v0 have r: "fst (ViewOf s_a ''/b/x.go'') = Inr 0"
    by auto
  from ViewOf_without_match[OF w(2) c(2) n'] v0
  have r': "ViewOf s_new ''/b/x.go'' = (Inl (Errorf ''no views in the session'' []), s_new)"
    by auto
  from w c v0 r r' show ?thesis by simp
qed





section \<open>Creating and dropping views: what the calls return\<close>

lemma createView_error: "snd (snd (fst (createView env nm fldr opts s))) = None"
  unfolding createView_def Let_def
  by (simp split: prod.splits sum.splits option.splits)

lemma createView_ptr: "fst (fst (createView env nm fldr opts s)) = length (heap s)"
  unfolding createView_def Let_def
  by (simp split: prod.splits sum.splits option.splits)

lemma createView_frame:
  "views (snd (createView env nm fldr opts s)) = views s
   \<and> viewMap (snd (createView env nm fldr opts s)) = viewMap s
   \<and> overlays (snd (createView env nm fldr opts s)) = overlays s
   \<and> cache (snd (createView env nm fldr opts s)) = cache s
   \<and> viewIndex (snd (createView env nm fldr opts s)) = viewIndex s + 1"
  unfolding createView_def Let_def
  by (simp split: prod.splits sum.splits option.splits)

lemma createView_heap:
  "\<exists>v. heap (snd (createView env nm fldr opts s)) = heap s @ [v]
     \<and> folder v = fldr \<and> name v = nm \<and> vid v = viewIndex s + 1
     \<and> fst (snd (fst (createView env nm fldr opts s))) = snapshot v"
  unfolding createView_def Let_def
  by (simp split: prod.splits sum.splits option.splits)

lemma createView_logs_load:
  assumes "\<forall>v. fst (load env v fldr) = Inl e"
  shows "(''failed to load snapshot'', e) \<in> set (logged (snd (createView env nm fldr opts s)))"
  using assms by (simp add: createView_def Let_def case_prod_unfold split: option.splits)

lemma createView_logs_check:
  assumes "\<forall>v. fst (load env v fldr) = Inr md"
    and "\<forall>v. fst (checkWorkspacePackages env v md) = Some e"
  shows "(''failed to check snapshot'', e) \<in> set (logged (snd (createView env nm fldr opts s)))"
  using assms by (simp add: createView_def Let_def case_prod_unfold split: option.splits)


lemma createView_split:
  "\<exists>v s1. createView env nm fldr opts s = ((length (heap s), snapshot v, None), s1)
     \<and> heap s1 = heap s @ [v] \<and> views s1 = views s \<and> viewMap s1 = viewMap s
     \<and> folder v = fldr \<and> name v = nm \<and> vid v = viewIndex s + 1"
proof -
  obtain p snap err s1 where cv: "createView env nm fldr opts s = ((p, snap, err), s1)"
    by (metis prod.exhaust)
  from createView_error[of env nm fldr opts s] cv have err: "err = None" by simp
  from createView_ptr[of env nm fldr opts s] cv have p: "p = length (heap s)" by simp
  from createView_heap[of env nm fldr opts s] cv obtain v where
    v: "heap s1 = heap s @ [v]" "folder v = fldr" "name v = nm" "vid v = viewIndex s + 1"
       "snap = snapshot v" by auto
  from createView_frame[of env nm fldr opts s] cv
  have fr: "views s1 = views s" "viewMap s1 = viewMap s" by simp_all
  from cv err p v fr show ?thesis by auto
qed

lemma NewView_result:
  "\<exists>v s1. NewView env nm fldr opts s =
      (Inr (length (heap s), snapshot v),
       s1\<lparr>views := views s @ [Some (length (heap s))], viewMap := Some Map.empty\<rparr>)
    \<and> heap s1 = heap s @ [v]
    \<and> folder v = fldr \<and> name v = nm \<and> vid v = viewIndex s + 1"
proof -
  from createView_split[of env nm fldr opts s] obtain v s1 where
    cv: "createView env nm fldr opts s = ((length (heap s), snapshot v, None), s1)"
    and r: "heap s1 = heap s @ [v]" "views s1 = views s"
      "folder v = fldr" "name v = nm" "vid v = viewIndex s + 1" by blast
  have "NewView env nm fldr opts s =
      (Inr (length (heap s), snapshot v),
       s1\<lparr>views := views s @ [Some (length (heap s))], viewMap := Some Map.empty\<rparr>)"
    by (simp add: NewView_def cv r)
  with r show ?thesis by blast
qed

lemma dropViewLoop_Some:
  "dropViewLoop v vs k = Some i \<Longrightarrow> k \<le> i \<and> i - k < length vs \<and> vs ! (i - k) = Some v"
proof (induction vs arbitrary: k)
  case Nil
  then show ?case by simp
next
  case (Cons x vs)
  show ?case
  proof (cases "Some v = x")
    case True
    with Cons.prems show ?thesis by simp
  next
    case False
    with Cons.prems have r: "dropViewLoop v vs (Suc k) = Some i" by simp
    from Cons.IH[OF r] have "Suc k \<le> i" "i - Suc k < length vs" "vs ! (i - Suc k) = Some v"
      by simp_all
    then show ?thesis by (simp add: Suc_diff_le nth_Cons')
  qed
qed

lemma dropViewLoop_None: "dropViewLoop v vs k = None \<Longrightarrow> Some v \<notin> set vs"
  by (induction vs arbitrary: k) (auto split: if_splits)

lemma dropViewLoop_finds: "Some v \<in> set vs \<Longrightarrow> \<exists>i. dropViewLoop v vs k = Some i"
  by (induction vs arbitrary: k) auto

lemma shut_folder:
  "folder (h[v := (h ! v)\<lparr>internals := x\<rparr>] ! q) = folder (h ! q)
   \<and> name (h[v := (h ! v)\<lparr>internals := x\<rparr>] ! q) = name (h ! q)"
proof (cases "q = v \<and> v < length h")
  case True
  then show ?thesis by simp
next
  case False
  then have "h[v := (h ! v)\<lparr>internals := x\<rparr>] ! q = h ! q"
    by (cases "q = v") (simp_all add: list_update_beyond)
  then show ?thesis by simp
qed

lemma dropView_found:
  assumes "Some v \<in> set (views s)"
  shows "\<exists>i. i < length (views s) \<and> views s ! i = Some v
    \<and> dropView env v s =
        (Inr i, s\<lparr>viewMap := Some Map.empty, views := (views s)[i := None],
                 heap := (heap s)[v := (heap s ! v)\<lparr>internals := shutdown env (heap s ! v)\<rparr>]\<rparr>)"
proof -
  from dropViewLoop_finds[OF assms, of 0] obtain i where
    i: "dropViewLoop v (views s) 0 = Some i" by blast
  from dropViewLoop_Some[OF i] have "i < length (views s)" "views s ! i = Some v" by simp_all
  moreover have "dropView env v s =
        (Inr i, s\<lparr>viewMap := Some Map.empty, views := (views s)[i := None],
                 heap := (heap s)[v := (heap s ! v)\<lparr>internals := shutdown env (heap s ! v)\<rparr>]\<rparr>)"
    by (simp add: dropView_def Let_def i)
  ultimately show ?thesis by blast
qed

lemma dropView_missing:
  assumes "Some v \<notin> set (views s)"
  shows "\<exists>e. dropView env v s = (Inl e, s\<lparr>viewMap := Some Map.empty\<rparr>)"
proof -
  have "dropViewLoop v (views s) 0 = None"
    using assms dropViewLoop_Some[of v "views s" 0]
    by (cases "dropViewLoop v (views s) 0") (auto simp: in_set_conv_nth)
  then show ?thesis by (simp add: dropView_def Let_def)
qed

lemma updateView_result:
  assumes "Some vw \<in> set (views s)"
  shows "\<exists>i v s2. i < length (views s) \<and> views s ! i = Some vw
    \<and> updateView env vw opts s =
        (Inr (length (heap s), snapshot v), s2\<lparr>views := (views s)[i := Some (length (heap s))]\<rparr>)
    \<and> heap s2 =
        (heap s)[vw := (heap s ! vw)\<lparr>internals := shutdown env (heap s ! vw)\<rparr>] @ [v]
    \<and> viewMap s2 = Some Map.empty
    \<and> folder v = folder (heap s ! vw) \<and> name v = name (heap s ! vw)"
proof -
  let ?h = "(heap s)[vw := (heap s ! vw)\<lparr>internals := shutdown env (heap s ! vw)\<rparr>]"
  from dropView_found[OF assms, of env] obtain i where
    i: "i < length (views s)" "views s ! i = Some vw"
    and d: "dropView env vw s =
        (Inr i, s\<lparr>viewMap := Some Map.empty, views := (views s)[i := None], heap := ?h\<rparr>)"
    by blast
  let ?s1 = "s\<lparr>viewMap := Some Map.empty, views := (views s)[i := None], heap := ?h\<rparr>"
  from createView_split[of env "name (?h ! vw)" "folder (?h ! vw)" opts ?s1]
  obtain v s2 where
    cv: "createView env (name (?h ! vw)) (folder (?h ! vw)) opts ?s1 =
          ((length (heap ?s1), snapshot v, None), s2)"
    and r: "heap s2 = heap ?s1 @ [v]" "views s2 = views ?s1" "viewMap s2 = viewMap ?s1"
      "folder v = folder (?h ! vw)" "name v = name (?h ! vw)" by blast
  have u: "updateView env vw opts s =
        (Inr (length (heap s), snapshot v), s2\<lparr>views := (views s)[i := Some (length (heap s))]\<rparr>)"
    using i cv r by (simp add: updateView_def d)
  from r shut_folder[of "heap s" vw "shutdown env (heap s ! vw)" vw]
  have "folder v = folder (heap s ! vw)" "name v = name (heap s ! vw)" by simp_all
  with i u r show ?thesis by auto
qed

section \<open>The loops of viewsOf and DidModifyFile\<close>






lemma nth_update_folder:
  "folder x = folder (h ! p) \<Longrightarrow> folder (h[p := x] ! q) = folder (h ! q)"
proof (cases "q = p \<and> p < length h")
  case True
  assume "folder x = folder (h ! p)"
  with True show ?thesis by simp
next
  case False
  then have "h[p := x] ! q = h ! q"
    by (cases "q = p") (simp_all add: list_update_beyond)
  then show ?thesis by simp
qed

lemma modifyLoop_frame:
  "modifyLoop env c ps s acc = (r, s') \<Longrightarrow>
   views s' = views s \<and> viewMap s' = viewMap s \<and> overlays s' = overlays s
   \<and> cache s' = cache s \<and> length (heap s') = length (heap s)
   \<and> (\<forall>q. folder (heap s' ! q) = folder (heap s ! q))"
proof (induction ps arbitrary: s acc)
  case Nil
  then show ?case by auto
next
  case (Cons p ps)
  let ?vw = "heap s ! p"
  show ?case
  proof (cases "Ignore env ?vw (URI c)")
    case True
    with Cons.prems show ?thesis by auto
  next
    case False
    obtain g vs1 where g: "getFileLocked env ?vw (URI c) = (g, vs1)" by (metis prod.exhaust)
    note up = nth_update_folder[of _ "heap s" p]
    show ?thesis
    proof (cases g)
      case (Inl err)
      with Cons.prems False g have "s' = s\<lparr>heap := (heap s)[p := ?vw\<lparr>internals := vs1\<rparr>]\<rparr>"
        by auto
      then show ?thesis using up[of "?vw\<lparr>internals := vs1\<rparr>"] by simp
    next
      case (Inr f)
      obtain snap vs2 where
        ic: "invalidateContent env (?vw\<lparr>internals := vs1\<rparr>) (URI c) (kind f) (Action c) = (snap, vs2)"
        by (metis prod.exhaust)
      let ?vw2 = "?vw\<lparr>internals := vs1, snapshot := snap, internals := vs2\<rparr>"
      let ?s2 = "s\<lparr>heap := (heap s)[p := ?vw2]\<rparr>"
      from Cons.prems False g Inr ic
      have run: "modifyLoop env c ps ?s2 (acc @ [snap]) = (r, s')" by (simp add: Let_def)
      from Cons.IH[OF run] up[of ?vw2] show ?thesis by simp
    qed
  qed
qed


section \<open>File modifications: the snapshots returned\<close>



lemma wf_frame:
  "views s' = views s \<Longrightarrow> length (heap s') = length (heap s) \<Longrightarrow> viewMap s' = viewMap s
   \<Longrightarrow> wf s' = wf s"
  by (simp add: wf_def list_all_iff cong: option.case_cong)




section \<open>Creating a view never fails\<close>

text \<open>
  Claim C9.  \<^verbatim>\<open>createView\<close> returns a nil error together with the new view and its
  snapshot, whatever the first load and the workspace-package check return; a failure of
  either is in the log.  Hence \<^verbatim>\<open>NewView\<close> succeeds and appends the view, and
  \<^verbatim>\<open>updateView\<close> succeeds for every view that is in the session, putting the new
  view, with the old name and folder, into the old view's slot.
\<close>

theorem createView_suppresses_errors:
  "snd (snd (fst (createView env nm fldr opts s))) = None
   \<and> (\<exists>v. fst (createView env nm fldr opts s) = (length (heap s), snapshot v, None)
         \<and> heap (snd (createView env nm fldr opts s)) = heap s @ [v]
         \<and> folder v = fldr \<and> name v = nm)
   \<and> ((\<forall>v. fst (load env v fldr) = Inl e) \<longrightarrow>
        (''failed to load snapshot'', e) \<in> set (logged (snd (createView env nm fldr opts s))))
   \<and> ((\<forall>v. fst (load env v fldr) = Inr md)
        \<and> (\<forall>v. fst (checkWorkspacePackages env v md) = Some e) \<longrightarrow>
        (''failed to check snapshot'', e) \<in> set (logged (snd (createView env nm fldr opts s))))
   \<and> (\<exists>v. fst (NewView env nm fldr opts s) = Inr (length (heap s), snapshot v)
         \<and> views (snd (NewView env nm fldr opts s)) = views s @ [Some (length (heap s))]
         \<and> heap (snd (NewView env nm fldr opts s)) = heap s @ [v]
         \<and> folder v = fldr \<and> name v = nm)
   \<and> (Some vw \<in> set (views s) \<longrightarrow>
        (\<exists>i v. i < length (views s) \<and> views s ! i = Some vw
           \<and> fst (updateView env vw opts s) = Inr (length (heap s), snapshot v)
           \<and> views (snd (updateView env vw opts s)) = (views s)[i := Some (length (heap s))]
           \<and> heap (snd (updateView env vw opts s)) ! length (heap s) = v
           \<and> folder v = folder (heap s ! vw) \<and> name v = name (heap s ! vw)))"
proof (intro conjI impI)
  show "snd (snd (fst (createView env nm fldr opts s))) = None"
    by (rule createView_error)
  from createView_split[of env nm fldr opts s]
  show "\<exists>v. fst (createView env nm fldr opts s) = (length (heap s), snapshot v, None)
         \<and> heap (snd (createView env nm fldr opts s)) = heap s @ [v]
         \<and> folder v = fldr \<and> name v = nm" by auto
  from NewView_result[of env nm fldr opts s]
  show "\<exists>v. fst (NewView env nm fldr opts s) = Inr (length (heap s), snapshot v)
         \<and> views (snd (NewView env nm fldr opts s)) = views s @ [Some (length (heap s))]
         \<and> heap (snd (NewView env nm fldr opts s)) = heap s @ [v]
         \<and> folder v = fldr \<and> name v = nm" by auto
next
  assume "\<forall>v. fst (load env v fldr) = Inl e"
  then show "(''failed to load snapshot'', e) \<in> set (logged (snd (createView env nm fldr opts s)))"
    by (rule createView_logs_load)
next
  assume "(\<forall>v. fst (load env v fldr) = Inr md)
        \<and> (\<forall>v. fst (checkWorkspacePackages env v md) = Some e)"
  then have a: "\<forall>v. fst (load env v fldr) = Inr md"
    and b: "\<forall>v. fst (checkWorkspacePackages env v md) = Some e" by simp_all
  from createView_logs_check[OF a b]
  show "(''failed to check snapshot'', e) \<in> set (logged (snd (createView env nm fldr opts s)))" .
next
  assume "Some vw \<in> set (views s)"
  from updateView_result[OF this, of env opts] obtain i v s2 where
    r: "i < length (views s)" "views s ! i = Some vw"
      "updateView env vw opts s =
        (Inr (length (heap s), snapshot v), s2\<lparr>views := (views s)[i := Some (length (heap s))]\<rparr>)"
      "heap s2 =
        (heap s)[vw := (heap s ! vw)\<lparr>internals := shutdown env (heap s ! vw)\<rparr>] @ [v]"
      "folder v = folder (heap s ! vw)" "name v = name (heap s ! vw)" by blast
  from r(4) have "heap s2 ! length (heap s) = v"
    by (simp add: nth_append)
  with r show "\<exists>i v. i < length (views s) \<and> views s ! i = Some vw
           \<and> fst (updateView env vw opts s) = Inr (length (heap s), snapshot v)
           \<and> views (snd (updateView env vw opts s)) = (views s)[i := Some (length (heap s))]
           \<and> heap (snd (updateView env vw opts s)) ! length (heap s) = v
           \<and> folder v = folder (heap s ! vw) \<and> name v = name (heap s ! vw)"
    by auto
qed

theorem createView_suppresses_errors_witness:
  "(\<forall>v. fst (load envFail v ''/a'') = Inl (Errorf ''go list failed'' []))
   \<and> fst (createView envFail ''a'' ''/a'' () s_new) = (0, \<lparr>view = Some 0, tables = 0\<rparr>, None)
   \<and> (''failed to load snapshot'', Errorf ''go list failed'' [])
       \<in> set (logged (snd (createView envFail ''a'' ''/a'' () s_new)))
   \<and> fst (NewView envFail ''a'' ''/a'' () s_new) = Inr (0, \<lparr>view = Some 0, tables = 0\<rparr>)
   \<and> Some 0 \<in> set (views s_a)
   \<and> fst (updateView envFail 0 () s_a) = Inr (1, \<lparr>view = Some 1, tables = 0\<rparr>)
   \<and> views (snd (updateView envFail 0 () s_a)) = [Some 1]"
proof -
  have l: "\<forall>v. fst (load envFail v ''/a'') = Inl (Errorf ''go list failed'' [])"
    by (simp add: envFail_def)
  from createView_suppresses_errors[where env = envFail and nm = "''a''" and fldr = "''/a''"
      and opts = "()" and s = s_new and e = "Errorf ''go list failed'' []"] l
  have lg: "(''failed to load snapshot'', Errorf ''go list failed'' [])
       \<in> set (logged (snd (createView envFail ''a'' ''/a'' () s_new)))" by blast
  have cv: "fst (createView envFail ''a'' ''/a'' () s_new) = (0, \<lparr>view = Some 0, tables = 0\<rparr>, None)"
    by (simp add: createView_def envFail_def env0_def s_new_eval Let_def)
  have nv: "fst (NewView envFail ''a'' ''/a'' () s_new) = Inr (0, \<lparr>view = Some 0, tables = 0\<rparr>)"
    by (simp add: NewView_def createView_def envFail_def env0_def s_new_eval Let_def)
  have m: "Some 0 \<in> set (views s_a)" by (simp add: s_a_eval)
  have uv: "fst (updateView envFail 0 () s_a) = Inr (1, \<lparr>view = Some 1, tables = 0\<rparr>)"
    "views (snd (updateView envFail 0 () s_a)) = [Some 1]"
    by (simp_all add: updateView_def dropView_def createView_def envFail_def env0_def
        s_a_eval Let_def)
  from l cv lg nv m uv show ?thesis by simp
qed

section \<open>The memo agrees with the views in every reachable state\<close>

lemma bestViewLoop_frame:
  "\<forall>q. folder (h' ! q) = folder (h ! q) \<Longrightarrow> bestViewLoop h' u vs L = bestViewLoop h u vs L"
proof (induction vs arbitrary: L)
  case Nil
  then show ?case by simp
next
  case (Cons x vs)
  then show ?case by (cases x) (simp_all add: Folder_def cong: option.case_cong)
qed

lemma bestView_frame:
  "views s' = views s \<Longrightarrow> \<forall>q. folder (heap s' ! q) = folder (heap s ! q)
   \<Longrightarrow> bestView s' u = bestView s u"
proof -
  assume a: "views s' = views s" and b: "\<forall>q. folder (heap s' ! q) = folder (heap s ! q)"
  have "bestViewLoop (heap s') u (views s) None = bestViewLoop (heap s) u (views s) None"
    by (rule bestViewLoop_frame[OF b])
  then show ?thesis unfolding bestView_def a by simp
qed

lemma memo_frame:
  "views s' = views s \<Longrightarrow> viewMap s' = viewMap s
   \<Longrightarrow> \<forall>q. folder (heap s' ! q) = folder (heap s ! q)
   \<Longrightarrow> memoConsistent s' = memoConsistent s"
  by (simp add: memoConsistent_def lookupMemo_def bestView_frame[of s' s])

lemma memoConsistent_empty: "viewMap s = Some Map.empty \<Longrightarrow> memoConsistent s"
  by (simp add: memoConsistent_def lookupMemo_def)

lemma memoConsistent_nil: "viewMap s = None \<Longrightarrow> memoConsistent s"
  by (simp add: memoConsistent_def lookupMemo_def)

lemma wfI:
  "(\<And>x. x \<in> set (views s) \<Longrightarrow> \<exists>p. x = Some p \<and> p < length (heap s)) \<Longrightarrow> distinct (views s)
   \<Longrightarrow> views s = [] \<or> viewMap s \<noteq> None \<Longrightarrow> wf s"
  unfolding wf_def list_all_iff by (fastforce split: option.splits)

lemma wf_entries: "wf s \<Longrightarrow> x \<in> set (views s) \<Longrightarrow> \<exists>p. x = Some p \<and> p < length (heap s)"
  by (auto simp: wf_def list_all_iff split: option.splits)

lemma wf_distinct: "wf s \<Longrightarrow> distinct (views s)"
  by (simp add: wf_def)

subsection \<open>NewView\<close>

lemma inv_NewView:
  assumes "wf s"
  shows "wf (snd (NewView env nm fldr opts s)) \<and> memoConsistent (snd (NewView env nm fldr opts s))"
proof -
  from NewView_result[of env nm fldr opts s] obtain v s1 where
    nv: "NewView env nm fldr opts s =
      (Inr (length (heap s), snapshot v),
       s1\<lparr>views := views s @ [Some (length (heap s))], viewMap := Some Map.empty\<rparr>)"
    and h: "heap s1 = heap s @ [v]" by blast
  let ?s' = "s1\<lparr>views := views s @ [Some (length (heap s))], viewMap := Some Map.empty\<rparr>"
  have "wf ?s'"
  proof (rule wfI)
    fix x assume "x \<in> set (views ?s')"
    then have "x \<in> set (views s) \<or> x = Some (length (heap s))" by auto
    then show "\<exists>p. x = Some p \<and> p < length (heap ?s')"
      using wf_entries[OF assms, of x] h by auto
  next
    have "Some (length (heap s)) \<notin> set (views s)" using wf_valid[OF assms] by blast
    then show "distinct (views ?s')" using wf_distinct[OF assms] by simp
  next
    show "views ?s' = [] \<or> viewMap ?s' \<noteq> None" by simp
  qed
  moreover have "memoConsistent ?s'" by (rule memoConsistent_empty) simp
  ultimately show ?thesis by (simp add: nv)
qed

subsection \<open>Deleting a slot\<close>

lemma deleteSlot_dropped:
  assumes "i < length vs"
  shows "deleteSlot (vs[i := None]) i =
    (if i = length vs - 1 then butlast vs else (butlast vs)[i := last vs])"
proof (cases "i = length vs - 1")
  case True
  with assms show ?thesis
    by (simp add: deleteSlot_def Let_def butlast_conv_take)
next
  case False
  with assms have l: "i < length vs - 1" by simp
  then have "vs \<noteq> []" by auto
  then have "last vs = vs ! (length vs - 1)" by (simp add: last_conv_nth)
  with l False show ?thesis
    by (simp add: deleteSlot_def Let_def butlast_conv_take take_update_swap list_update_beyond)
qed

lemma last_notin_butlast: "distinct vs \<Longrightarrow> vs \<noteq> [] \<Longrightarrow> last vs \<notin> set (butlast vs)"
proof -
  assume d: "distinct vs" and ne: "vs \<noteq> []"
  then have "distinct (butlast vs @ [last vs])" by simp
  then show ?thesis by simp
qed

lemma deleteSlot_ok:
  assumes "distinct vs" "i < length vs"
  shows "distinct (deleteSlot (vs[i := None]) i) \<and> set (deleteSlot (vs[i := None]) i) \<subseteq> set vs"
proof -
  from assms have ne: "vs \<noteq> []" by auto
  have db: "distinct (butlast vs)" using assms(1) by (rule distinct_butlast)
  have sb: "set (butlast vs) \<subseteq> set vs" by (auto dest: in_set_butlastD)
  have ln: "last vs \<notin> set (butlast vs)" using last_notin_butlast[OF assms(1) ne] .
  have lv: "last vs \<in> set vs" using ne by simp
  show ?thesis
  proof (cases "i = length vs - 1")
    case True
    with assms db sb show ?thesis by (simp add: deleteSlot_dropped)
  next
    case False
    have "distinct ((butlast vs)[i := last vs])"
      using db ln by (simp add: distinct_list_update)
    moreover have "set ((butlast vs)[i := last vs]) \<subseteq> set vs"
      using set_update_subset_insert[of "butlast vs" i "last vs"] sb lv by auto
    ultimately show ?thesis using False assms by (simp add: deleteSlot_dropped)
  qed
qed


subsection \<open>removeView and updateView\<close>

lemma inv_dropped_missing:
  assumes "wf s"
  shows "wf (s\<lparr>viewMap := Some Map.empty\<rparr>) \<and> memoConsistent (s\<lparr>viewMap := Some Map.empty\<rparr>)"
proof -
  have "wf (s\<lparr>viewMap := Some Map.empty\<rparr>)"
    using assms by (simp add: wf_def list_all_iff cong: option.case_cong)
  moreover have "memoConsistent (s\<lparr>viewMap := Some Map.empty\<rparr>)"
    by (rule memoConsistent_empty) simp
  ultimately show ?thesis by simp
qed

lemma inv_removeView:
  assumes "wf s"
  shows "wf (snd (removeView env v s)) \<and> memoConsistent (snd (removeView env v s))"
proof (cases "Some v \<in> set (views s)")
  case False
  from dropView_missing[OF False, of env] obtain e where
    d: "dropView env v s = (Inl e, s\<lparr>viewMap := Some Map.empty\<rparr>)" by blast
  then have "snd (removeView env v s) = s\<lparr>viewMap := Some Map.empty\<rparr>"
    by (simp add: removeView_def)
  with inv_dropped_missing[OF assms] show ?thesis by simp
next
  case True
  let ?h = "(heap s)[v := (heap s ! v)\<lparr>internals := shutdown env (heap s ! v)\<rparr>]"
  from dropView_found[OF True, of env] obtain i where
    i: "i < length (views s)" "views s ! i = Some v"
    and d: "dropView env v s =
        (Inr i, s\<lparr>viewMap := Some Map.empty, views := (views s)[i := None], heap := ?h\<rparr>)"
    by blast
  let ?s' = "s\<lparr>viewMap := Some Map.empty, views := deleteSlot ((views s)[i := None]) i, heap := ?h\<rparr>"
  have r: "snd (removeView env v s) = ?s'" by (simp add: removeView_def d)
  from deleteSlot_ok[OF wf_distinct[OF assms] i(1)] have
    dd: "distinct (deleteSlot ((views s)[i := None]) i)"
    and ss: "set (deleteSlot ((views s)[i := None]) i) \<subseteq> set (views s)" by simp_all
  have "wf ?s'"
  proof (rule wfI)
    fix x assume "x \<in> set (views ?s')"
    with ss have "x \<in> set (views s)" by auto
    from wf_entries[OF assms this] show "\<exists>p. x = Some p \<and> p < length (heap ?s')" by simp
  next
    show "distinct (views ?s')" using dd by simp
  next
    show "views ?s' = [] \<or> viewMap ?s' \<noteq> None" by simp
  qed
  moreover have "memoConsistent ?s'" by (rule memoConsistent_empty) simp
  ultimately show ?thesis by (simp add: r)
qed

lemma inv_updateView:
  assumes "wf s"
  shows "wf (snd (updateView env v opts s)) \<and> memoConsistent (snd (updateView env v opts s))"
proof (cases "Some v \<in> set (views s)")
  case False
  from dropView_missing[OF False, of env] obtain e where
    d: "dropView env v s = (Inl e, s\<lparr>viewMap := Some Map.empty\<rparr>)" by blast
  then have "snd (updateView env v opts s) = s\<lparr>viewMap := Some Map.empty\<rparr>"
    by (simp add: updateView_def)
  with inv_dropped_missing[OF assms] show ?thesis by simp
next
  case True
  from updateView_result[OF True, of env opts] obtain i w s2 where
    r: "i < length (views s)"
      "updateView env v opts s =
        (Inr (length (heap s), snapshot w), s2\<lparr>views := (views s)[i := Some (length (heap s))]\<rparr>)"
      "heap s2 =
        (heap s)[v := (heap s ! v)\<lparr>internals := shutdown env (heap s ! v)\<rparr>] @ [w]"
      "viewMap s2 = Some Map.empty" by blast
  let ?s' = "s2\<lparr>views := (views s)[i := Some (length (heap s))]\<rparr>"
  have fresh: "Some (length (heap s)) \<notin> set (views s)" using wf_valid[OF assms] by blast
  have "wf ?s'"
  proof (rule wfI)
    fix x assume "x \<in> set (views ?s')"
    then have "x \<in> insert (Some (length (heap s))) (set (views s))"
      using set_update_subset_insert[of "views s" i "Some (length (heap s))"] by auto
    then show "\<exists>p. x = Some p \<and> p < length (heap ?s')"
      using wf_entries[OF assms, of x] r(3) by auto
  next
    show "distinct (views ?s')"
      using wf_distinct[OF assms] fresh by (simp add: distinct_list_update)
  next
    show "views ?s' = [] \<or> viewMap ?s' \<noteq> None" using r(4) by simp
  qed
  moreover have "memoConsistent ?s'" by (rule memoConsistent_empty) (simp add: r(4))
  ultimately show ?thesis by (simp add: r(2))
qed

subsection \<open>viewOf\<close>

lemma viewOf_cases:
  "snd (viewOf s u) = s
   \<or> (\<exists>m v. viewMap s = Some m \<and> lookupMemo s u = None \<and> bestView s u = Inr v
        \<and> viewOf s u = (Inr v, s\<lparr>viewMap := Some (m(u \<mapsto> v))\<rparr>))"
  by (auto simp: viewOf_def split: option.splits sum.splits)

lemma inv_memoized:
  assumes "wf s" "memoConsistent s" "viewMap s = Some m" "bestView s u = Inr v"
  shows "wf (s\<lparr>viewMap := Some (m(u \<mapsto> v))\<rparr>) \<and> memoConsistent (s\<lparr>viewMap := Some (m(u \<mapsto> v))\<rparr>)"
proof -
  let ?s' = "s\<lparr>viewMap := Some (m(u \<mapsto> v))\<rparr>"
  have w: "wf ?s'" using assms(1) by (simp add: wf_def list_all_iff cong: option.case_cong)
  have b: "\<And>u'. bestView ?s' u' = bestView s u'"
    by (rule bestView_frame) simp_all
  have "memoConsistent ?s'"
    unfolding memoConsistent_def
  proof (intro allI impI)
    fix u' v' assume l: "lookupMemo ?s' u' = Some v'"
    show "bestView ?s' u' = Inr v'"
    proof (cases "u' = u")
      case True
      with l have "v' = v" by (simp add: lookupMemo_def)
      with True assms(4) b show ?thesis by simp
    next
      case False
      with l assms(3) have "lookupMemo s u' = Some v'" by (simp add: lookupMemo_def)
      with assms(2) b show ?thesis by (simp add: memoConsistent_def)
    qed
  qed
  with w show ?thesis by simp
qed

lemma inv_viewOf:
  assumes "wf s" "memoConsistent s"
  shows "wf (snd (viewOf s u)) \<and> memoConsistent (snd (viewOf s u))"
  using viewOf_cases[of s u]
proof
  assume "snd (viewOf s u) = s"
  with assms show ?thesis by simp
next
  assume "\<exists>m v. viewMap s = Some m \<and> lookupMemo s u = None \<and> bestView s u = Inr v
        \<and> viewOf s u = (Inr v, s\<lparr>viewMap := Some (m(u \<mapsto> v))\<rparr>)"
  then obtain m v where "viewMap s = Some m" "bestView s u = Inr v"
    "viewOf s u = (Inr v, s\<lparr>viewMap := Some (m(u \<mapsto> v))\<rparr>)" by blast
  with inv_memoized[OF assms, of m u v] show ?thesis by simp
qed

subsection \<open>Calls that leave the views, the map and the folders alone\<close>

lemma inv_frame:
  assumes "wf s" "memoConsistent s"
    and "views s' = views s" "viewMap s' = viewMap s" "length (heap s') = length (heap s)"
    and "\<forall>q. folder (heap s' ! q) = folder (heap s ! q)"
  shows "wf s' \<and> memoConsistent s'"
  using assms wf_frame[of s' s] memo_frame[of s' s] by simp

lemma DidModifyFile_frame:
  "views (snd (DidModifyFile env c s)) = views s
   \<and> viewMap (snd (DidModifyFile env c s)) = viewMap s
   \<and> length (heap (snd (DidModifyFile env c s))) = length (heap s)
   \<and> (\<forall>q. folder (heap (snd (DidModifyFile env c s)) ! q) = folder (heap s ! q))"
proof -
  obtain ovs oerr where uo: "updateOverlay env (overlays s) c = (ovs, oerr)"
    by (metis prod.exhaust)
  let ?s1 = "s\<lparr>overlays := ovs\<rparr>"
  show ?thesis
  proof (cases oerr)
    case (Some err)
    with uo show ?thesis by (simp add: DidModifyFile_def)
  next
    case None
    show ?thesis
    proof (cases "viewsOf ?s1 (URI c)")
      case (Inl e)
      with uo None show ?thesis by (simp add: DidModifyFile_def)
    next
      case (Inr vs)
      obtain r s' where m: "modifyLoop env c vs ?s1 [] = (r, s')" by (metis prod.exhaust)
      with uo None Inr have "snd (DidModifyFile env c s) = s'" by (simp add: DidModifyFile_def)
      with modifyLoop_frame[OF m] show ?thesis by simp
    qed
  qed
qed

lemma DidChangeOutOfBand_frame:
  "views (snd (DidChangeOutOfBand env u a s)) = views (snd (viewOf s u))
   \<and> viewMap (snd (DidChangeOutOfBand env u a s)) = viewMap (snd (viewOf s u))
   \<and> length (heap (snd (DidChangeOutOfBand env u a s))) = length (heap (snd (viewOf s u)))
   \<and> (\<forall>q. folder (heap (snd (DidChangeOutOfBand env u a s)) ! q)
          = folder (heap (snd (viewOf s u)) ! q))"
proof -
  obtain r s1 where vo: "viewOf s u = (r, s1)" by (metis prod.exhaust)
  show ?thesis
  proof (cases r)
    case (Inl e)
    with vo show ?thesis by (cases e) (simp_all add: DidChangeOutOfBand_def)
  next
    case (Inr p)
    let ?vw = "heap s1 ! p"
    obtain g vs1 where g: "getFileLocked env ?vw u = (g, vs1)" by (metis prod.exhaust)
    show ?thesis
    proof (cases g)
      case (Inl err)
      with vo Inr g have "snd (DidChangeOutOfBand env u a s)
          = s1\<lparr>heap := (heap s1)[p := ?vw\<lparr>internals := vs1\<rparr>]\<rparr>"
        by (simp add: DidChangeOutOfBand_def Let_def)
      with vo nth_update_folder[of "?vw\<lparr>internals := vs1\<rparr>" "heap s1" p] show ?thesis by simp
    next
      case (Inr f)
      obtain snap vs2 where
        ic: "invalidateContent env (?vw\<lparr>internals := vs1\<rparr>) (file_uri f) (kind f) a = (snap, vs2)"
        by (metis prod.exhaust)
      let ?vw2 = "?vw\<lparr>internals := vs1, snapshot := snap, internals := vs2\<rparr>"
      from vo \<open>r = Inr p\<close> g Inr ic have "snd (DidChangeOutOfBand env u a s)
          = s1\<lparr>heap := (heap s1)[p := ?vw2]\<rparr>"
        by (simp add: DidChangeOutOfBand_def Let_def)
      with vo nth_update_folder[of ?vw2 "heap s1" p] show ?thesis by simp
    qed
  qed
qed

lemma shutdownLoop_frame:
  "shutdownLoop env vs h = (r, h') \<Longrightarrow>
   length h' = length h \<and> (\<forall>q. folder (h' ! q) = folder (h ! q))"
proof (induction vs arbitrary: h)
  case Nil
  then show ?case by simp
next
  case (Cons x vs)
  show ?case
  proof (cases x)
    case None
    with Cons.prems show ?thesis by simp
  next
    case (Some v)
    let ?h1 = "h[v := (h ! v)\<lparr>internals := shutdown env (h ! v)\<rparr>]"
    from Cons.prems Some have "shutdownLoop env vs ?h1 = (r, h')" by simp
    from Cons.IH[OF this] nth_update_folder[of "(h ! v)\<lparr>internals := shutdown env (h ! v)\<rparr>" h v]
    show ?thesis by simp
  qed
qed

lemma inv_Shutdown:
  assumes "wf s" "memoConsistent s"
  shows "wf (snd (Shutdown env s)) \<and> memoConsistent (snd (Shutdown env s))"
proof -
  obtain r h where sl: "shutdownLoop env (views s) (heap s) = (r, h)" by (metis prod.exhaust)
  show ?thesis
  proof (cases r)
    case None
    with sl have e: "snd (Shutdown env s) = s\<lparr>heap := h, views := [], viewMap := None\<rparr>"
      by (simp add: Shutdown_def)
    have "wf (s\<lparr>heap := h, views := [], viewMap := None\<rparr>)" by (simp add: wf_def)
    moreover have "memoConsistent (s\<lparr>heap := h, views := [], viewMap := None\<rparr>)"
      by (rule memoConsistent_nil) simp
    ultimately show ?thesis by (simp add: e)
  next
    case (Some err)
    with sl have e: "snd (Shutdown env s) = s\<lparr>heap := h\<rparr>" by (simp add: Shutdown_def)
    from shutdownLoop_frame[OF sl] inv_frame[OF assms, of "s\<lparr>heap := h\<rparr>"] e
    show ?thesis by simp
  qed
qed

lemma inv_exec:
  assumes "wf s" "memoConsistent s"
  shows "wf (exec env s call) \<and> memoConsistent (exec env s call)"
proof (cases call)
  case (CallNewView nm fldr opts)
  with inv_NewView[OF assms(1), of env nm fldr opts] show ?thesis by simp
next
  case (CallRemoveView v)
  with inv_removeView[OF assms(1), of env v] assms show ?thesis by simp
next
  case (CallUpdateView v opts)
  with inv_updateView[OF assms(1), of env v opts] assms show ?thesis by simp
next
  case (CallViewOf u)
  with inv_viewOf[OF assms, of u] show ?thesis by (simp add: ViewOf_def)
next
  case (CallDidModifyFile c)
  with inv_frame[OF assms, of "snd (DidModifyFile env c s)"] DidModifyFile_frame[of env c s]
  show ?thesis by simp
next
  case (CallGetFile u k)
  have "\<exists>c. snd (GetFile env s u k) = s\<lparr>cache := c\<rparr>"
  proof (cases "readOverlay s u")
    case None
    then have "snd (GetFile env s u k) = s\<lparr>cache := snd (cacheGetFile env (cache s) u k)\<rparr>"
      by (simp add: GetFile_def case_prod_unfold Let_def)
    then show ?thesis by blast
  next
    case (Some ov)
    then have "snd (GetFile env s u k) = s\<lparr>cache := cache s\<rparr>" by (simp add: GetFile_def)
    then show ?thesis by blast
  qed
  then obtain c where "snd (GetFile env s u k) = s\<lparr>cache := c\<rparr>" by blast
  with CallGetFile inv_frame[OF assms, of "s\<lparr>cache := c\<rparr>"] show ?thesis by simp
next
  case (CallDidChangeOutOfBand u a)
  from inv_viewOf[OF assms, of u] have
    "wf (snd (viewOf s u))" "memoConsistent (snd (viewOf s u))" by simp_all
  from inv_frame[OF this, of "snd (DidChangeOutOfBand env u a s)"]
    DidChangeOutOfBand_frame[of env u a s] CallDidChangeOutOfBand
  show ?thesis by simp
next
  case (CallSetOptions opts)
  with inv_frame[OF assms, of "s\<lparr>options := opts\<rparr>"] show ?thesis
    by (simp add: SetOptions_session_def)
next
  case CallShutdown
  with inv_Shutdown[OF assms, of env] show ?thesis by simp
qed

lemma inv_run:
  "wf s \<Longrightarrow> memoConsistent s \<Longrightarrow> wf (run env calls s) \<and> memoConsistent (run env calls s)"
proof (induction calls arbitrary: s)
  case Nil
  then show ?case by (simp add: run_def)
next
  case (Cons call calls)
  from inv_exec[OF Cons.prems, of env call] have
    "wf (exec env s call)" "memoConsistent (exec env s call)" by simp_all
  from Cons.IH[OF this] show ?case by (simp add: run_def)
qed

lemma inv_NewSession: "wf (NewSession c opts) \<and> memoConsistent (NewSession c opts)"
  by (simp add: wf_def memoConsistent_def lookupMemo_def NewSession_def)


lemma dropView_resets: "viewMap (snd (dropView env v s)) = Some Map.empty"
  by (simp add: dropView_def Let_def split: option.splits)

lemma NewView_resets: "viewMap (snd (NewView env nm fldr opts s)) = Some Map.empty"
  using NewView_result[of env nm fldr opts s] by auto

text \<open>
  Claim C6.  In every state that a session reaches from its creation by calls of its
  methods, each entry of the URI-to-view memo is what \<^verbatim>\<open>bestView\<close> returns for that URI
  over the session's current views (and the session is well-formed).  \<^verbatim>\<open>NewView\<close> and
  \<^verbatim>\<open>dropView\<close>, through which \<^verbatim>\<open>removeView\<close> and \<^verbatim>\<open>updateView\<close> go, leave an empty map.
\<close>

theorem memo_consistent_in_every_run:
  "memoConsistent (run env calls (NewSession c opts))
   \<and> wf (run env calls (NewSession c opts))
   \<and> viewMap (snd (NewView env nm fldr opts' s)) = Some Map.empty
   \<and> viewMap (snd (dropView env v s)) = Some Map.empty"
proof -
  have "wf (run env calls (NewSession c opts))
      \<and> memoConsistent (run env calls (NewSession c opts))"
    by (rule inv_run) (simp_all add: inv_NewSession)
  with dropView_resets[of env v s] NewView_resets[of env nm fldr opts' s]
  show ?thesis by simp
qed

lemma s_routed_eval:
  "s_routed = s_a\<lparr>viewMap := Some [''/a/b/x.go'' \<mapsto> 0],
       heap := heap s_ab, viewIndex := 2\<rparr>"
  by (simp add: s_routed_def s_a_eval s_ab_eval NewSession_def run_def NewView_def
      createView_def ViewOf_def viewOf_def lookupMemo_def bestView_def Folder_def
      removeView_def dropView_def deleteSlot_def env0_def Let_def)

theorem memo_consistent_in_every_run_witness:
  "views s_routed = [Some 0]
   \<and> lookupMemo s_routed ''/a/b/x.go'' = Some 0
   \<and> bestView s_routed ''/a/b/x.go'' = Inr 0"
proof -
  have m: "memoConsistent s_routed"
    unfolding s_routed_def
    using memo_consistent_in_every_run[where env = env0 and c = 0 and opts = "()"] by blast
  have l: "lookupMemo s_routed ''/a/b/x.go'' = Some 0"
    by (simp add: s_routed_eval lookupMemo_def)
  from m l have b: "bestView s_routed ''/a/b/x.go'' = Inr 0"
    by (simp add: memoConsistent_def)
  have v: "views s_routed = [Some 0]" by (simp add: s_routed_eval s_a_eval)
  from v l b show ?thesis by simp
qed

section \<open>Setting options\<close>






































end
